theory Spec2Isabelle
  imports Main "HOL-Library.Char_ord" "HOL-Library.List_Lexorder" "HOL-Library.Multiset"
begin

section \<open>Python string primitives used by the script\<close>

text \<open>
  A Python \<open>str\<close> is modelled as a \<^typ>\<open>string\<close>, one \<^typ>\<open>char\<close> for each code point of
  the Python string (the claims are about ASCII text). Indices and lengths are Python
  integers, so they are \<^typ>\<open>int\<close>; an omitted slice bound is \<^term>\<open>None\<close>.
\<close>

datatype error = AssertionError | KeyError

definition dquote :: char where
  "dquote = CHR 0x22"

definition newline :: char where
  "newline = CHR 0x0A"

text \<open>
  How Python clips one slice bound against the length \<open>n\<close>: a negative bound counts
  from the end, and everything is clamped into \<open>0..n\<close>.
\<close>

definition adjust_index :: "int \<Rightarrow> int \<Rightarrow> int" where
  "adjust_index n i = (if i < 0 then max 0 (i + n) else min i n)"

text \<open>\<open>s[start:stop]\<close>; slicing never raises.\<close>

definition slice :: "string \<Rightarrow> int option \<Rightarrow> int option \<Rightarrow> string" where
  "slice s start stop =
     (let n = int (length s);
          a = (case start of None \<Rightarrow> 0 | Some i \<Rightarrow> adjust_index n i);
          b = (case stop of None \<Rightarrow> n | Some j \<Rightarrow> adjust_index n j)
      in take (nat (b - a)) (drop (nat a) s))"

definition startswith :: "string \<Rightarrow> string \<Rightarrow> bool" where
  "startswith s p = (take (length p) s = p)"

definition endswith :: "string \<Rightarrow> string \<Rightarrow> bool" where
  "endswith s p = (length p \<le> length s \<and> drop (length s - length p) s = p)"

text \<open>The lowest index at which \<open>sub\<close> occurs in \<open>s\<close>, if there is one.\<close>

fun find_sub :: "string \<Rightarrow> string \<Rightarrow> nat option" where
  "find_sub sub [] = (if sub = [] then Some 0 else None)"
| "find_sub sub (c # cs) =
     (if take (length sub) (c # cs) = sub then Some 0
      else map_option Suc (find_sub sub cs))"

text \<open>
  \<open>s.find(sub, start, stop)\<close>: the lowest index in \<open>s\<close> where \<open>sub\<close> occurs inside
  \<open>s[start:stop]\<close>, or \<open>-1\<close>. Unlike a slice, \<open>find\<close> does not clip a start beyond the
  end of the string: there is no match then, not even of the empty string.
\<close>

definition str_find :: "string \<Rightarrow> string \<Rightarrow> int option \<Rightarrow> int option \<Rightarrow> int" where
  "str_find s sub start stop =
     (let n = int (length s);
          a = (case start of None \<Rightarrow> 0 | Some i \<Rightarrow> if i < 0 then max 0 (i + n) else i);
          b = (case stop of None \<Rightarrow> n | Some j \<Rightarrow> adjust_index n j)
      in if b - a < int (length sub) then - 1
         else (case find_sub sub (take (nat (b - a)) (drop (nat a) s)) of
                 None \<Rightarrow> - 1
               | Some i \<Rightarrow> a + int i))"

section \<open>The name resolver\<close>

text \<open>
  \<^verbatim>\<open>
  def has_dot_in_target_basename(target: str) -> bool:
      assert (
          target.startswith("ref/")
          and target.find("/", 4) == -1
          and target.endswith(".html")
      )
      return target.find(".", 4, -5) > -1
  \<close>
  A failed \<open>assert\<close> raises \<open>AssertionError\<close> (the script is run by \<open>python3\<close> without
  \<open>-O\<close>, so assertions are checked).
\<close>

definition has_dot_in_target_basename :: "string \<Rightarrow> error + bool" where
  "has_dot_in_target_basename target =
     (if \<not> (startswith target ''ref/''
             \<and> str_find target ''/'' (Some 4) None = - 1
             \<and> endswith target ''.html'')
      then Inl AssertionError
      else Inr (str_find target ''.'' (Some 4) (Some (- 5)) > - 1))"

text \<open>
  \<^verbatim>\<open>
  def parse_fq_class_name(target: str, name: str) -> str:
      fqcn_lc = target[4:-5]
      return fqcn_lc[:-len(name)] + name
  \<close>
\<close>

definition parse_fq_class_name :: "string \<Rightarrow> string \<Rightarrow> string" where
  "parse_fq_class_name target name =
     (let fqcn_lc = slice target (Some 4) (Some (- 5))
      in slice fqcn_lc None (Some (- int (length name))) @ name)"

section \<open>The tree walker\<close>

text \<open>
  An \<open>xml.etree.ElementTree.Element\<close>: its tag, its attribute dictionary (the items of the
  dictionary, looked up with \<^const>\<open>map_of\<close>) and its child elements in document order.
\<close>

datatype element = Element (tag: string) (attrib: "(string \<times> string) list") (children: "element list")

definition REF_TAG :: string where
  "REF_TAG = ''{https://www.mathworks.com/help/ref/data}ref''"

text \<open>The module-level flag \<open>_PRINT_FQCN = True\<close>.\<close>

definition PRINT_FQCN :: bool where
  "PRINT_FQCN = True"

text \<open>
  \<open>functions += deep_search_for_functions(children)\<close> for each child in turn; the first
  child that raises ends the loop.
\<close>

fun extend_all :: "string list \<Rightarrow> (error + string list) list \<Rightarrow> error + string list" where
  "extend_all functions [] = Inr functions"
| "extend_all functions (r # rs) =
     (case r of Inl e \<Rightarrow> Inl e | Inr more \<Rightarrow> extend_all (functions @ more) rs)"

text \<open>
  \<^verbatim>\<open>
  def deep_search_for_functions(element):
      functions = []
      if element.tag == "{https://www.mathworks.com/help/ref/data}ref":
          assert (
              element.attrib
              and "name" in element.attrib
              and "target" in element.attrib
          )
          name = element.attrib["name"]
          if _PRINT_FQCN:
              target = element.attrib["target"]
              if has_dot_in_target_basename(target):
                  functions.append(parse_fq_class_name(target, name))
              else:
                  functions.append(name)
          else:
              functions.append(name)
      for children in list(element):
          functions += deep_search_for_functions(children)
      return functions
  \<close>
  The flag is a parameter of \<open>deep_search_flag\<close>, so that both of its values can be
  studied; \<open>deep_search_for_functions\<close> is the function as the script runs it. A
  dictionary subscript with a missing key raises \<open>KeyError\<close>. Python's recursion limit is
  not modelled.
\<close>

fun deep_search_flag :: "bool \<Rightarrow> element \<Rightarrow> error + string list" where
  "deep_search_flag print_fqcn (Element tg at ch) =
     (case (if tg = REF_TAG then
              (if \<not> (at \<noteq> [] \<and> map_of at ''name'' \<noteq> None \<and> map_of at ''target'' \<noteq> None)
               then Inl AssertionError
               else (case map_of at ''name'' of
                       None \<Rightarrow> Inl KeyError
                     | Some name \<Rightarrow>
                         (if print_fqcn then
                            (case map_of at ''target'' of
                               None \<Rightarrow> Inl KeyError
                             | Some target \<Rightarrow>
                                 (case has_dot_in_target_basename target of
                                    Inl e \<Rightarrow> Inl e
                                  | Inr dotted \<Rightarrow>
                                      (if dotted then Inr [parse_fq_class_name target name]
                                       else Inr [name])))
                          else Inr [name])))
            else Inr [])
      of Inl e \<Rightarrow> Inl e
       | Inr functions \<Rightarrow> extend_all functions (map (deep_search_flag print_fqcn) ch))"

definition deep_search_for_functions :: "element \<Rightarrow> error + string list" where
  "deep_search_for_functions element = deep_search_flag PRINT_FQCN element"

section \<open>The formatter\<close>

text \<open>
  Standard output is the text written so far; the printer state carries it together with
  the local variable \<open>cur_pos\<close>. \<open>print(s, end=e)\<close> appends \<open>s\<close> and \<open>e\<close>; the default
  \<open>end\<close> is a newline.
\<close>

record printer =
  out :: string
  cur_pos :: int

definition print_end :: "string \<Rightarrow> string \<Rightarrow> printer \<Rightarrow> printer" where
  "print_end s e st = st\<lparr>out := out st @ s @ e\<rparr>"

definition print_line :: "string \<Rightarrow> printer \<Rightarrow> printer" where
  "print_line s st = print_end s [newline] st"

text \<open>
  \<open>sorted(functions)\<close> on a list of \<open>str\<close>: a stable sort by code points, lexicographic,
  a proper prefix first. This is \<^const>\<open>sort\<close> at the order of
  \<open>HOL-Library.List_Lexorder\<close> over \<open>HOL-Library.Char_ord\<close>.
\<close>

definition sorted_py :: "string list \<Rightarrow> string list" where
  "sorted_py functions = sort functions"

text \<open>
  The body of the loop of \<open>print_for_octave\<close>:
  \<^verbatim>\<open>
      chars_to_print = len(function) + 7
      if cur_pos + chars_to_print > 79:
          print("...")
          print("          ", end="")
          cur_pos = 10
      print('"%s"' % function, end=", ")
      cur_pos += len(function) + 4
  \<close>
\<close>

definition print_function :: "string \<Rightarrow> printer \<Rightarrow> printer" where
  "print_function function st =
     (let chars_to_print = int (length function) + 7;
          st1 = (if cur_pos st + chars_to_print > 79
                 then (print_end ''          '' [] (print_line ''...'' st))\<lparr>cur_pos := 10\<rparr>
                 else st);
          st2 = print_end ([dquote] @ function @ [dquote]) '', '' st1
      in st2\<lparr>cur_pos := cur_pos st2 + (int (length function) + 4)\<rparr>)"

text \<open>
  \<^verbatim>\<open>
  def print_for_octave(functions):
      cur_pos = 0
      print("    case {", end="")
      cur_pos = 10
      for function in sorted(functions):
          ...
      print("}")
  \<close>
  \<open>print_header\<close> is the state when the loop is entered, \<open>print_loop\<close> the state when it
  is left, and \<open>print_for_octave\<close> everything the function writes.
\<close>

definition print_header :: printer where
  "print_header = (print_end ''    case {'' [] \<lparr>out = [], cur_pos = 0\<rparr>)\<lparr>cur_pos := 10\<rparr>"

definition print_loop :: "string list \<Rightarrow> printer \<Rightarrow> printer" where
  "print_loop functions st = fold print_function functions st"

definition print_for_octave :: "string list \<Rightarrow> string" where
  "print_for_octave functions =
     out (print_line ''}'' (print_loop (sorted_py functions) print_header))"

text \<open>
  \<open>main\<close> from the parsed tree on (the download is outside the model): the text on
  standard output and the exit status. An exception that nothing catches ends the
  interpreter with status 1, and nothing has been printed by then, since printing starts
  after the walk.
\<close>

definition main_from_tree :: "element \<Rightarrow> string \<times> int" where
  "main_from_tree xml_element =
     (case deep_search_for_functions xml_element of
        Inl e \<Rightarrow> ([], 1)
      | Inr functions \<Rightarrow> (print_for_octave functions, 0))"

section \<open>Notions of the specification\<close>



text \<open>
  The fixed shape of a target: \<open>ref/<basename>.html\<close> with no path separator in the
  basename. The basename may be empty.
\<close>

definition well_shaped :: "string \<Rightarrow> bool" where
  "well_shaped target \<longleftrightarrow> (\<exists>b. target = ''ref/'' @ b @ ''.html'' \<and> CHR ''/'' \<notin> set b)"

text \<open>Every node of a tree, in document order (depth first, a node before its children).\<close>

fun nodes :: "element \<Rightarrow> element list" where
  "nodes (Element tg at ch) = Element tg at ch # concat (map nodes ch)"

definition is_ref :: "element \<Rightarrow> bool" where
  "is_ref e = (tag e = REF_TAG)"

definition ref_entries :: "element \<Rightarrow> element list" where
  "ref_entries t = filter is_ref (nodes t)"

text \<open>
  The resolved name of a reference entry, as the specification describes it: the entry
  must carry a \<open>name\<close> and a \<open>target\<close>; with the flag set, a target of the fixed shape with
  a dot in its basename gives the qualified name and a target without one gives the name
  as it is; with the flag unset the name is used as it is. \<^term>\<open>None\<close> stands for an
  entry that violates the schema.
\<close>

definition resolved_name :: "bool \<Rightarrow> element \<Rightarrow> string option" where
  "resolved_name print_fqcn e =
     (case (map_of (attrib e) ''name'', map_of (attrib e) ''target'') of
        (Some name, Some target) \<Rightarrow>
          (if print_fqcn then
             (case has_dot_in_target_basename target of
                Inl _ \<Rightarrow> None
              | Inr dotted \<Rightarrow> Some (if dotted then parse_fq_class_name target name else name))
           else Some name)
      | _ \<Rightarrow> None)"

text \<open>
  The walk as the specification describes it: the resolved names of all reference
  entries in document order, or a failed assertion when one of them violates the schema.
\<close>

definition resolved_names :: "bool \<Rightarrow> element \<Rightarrow> error + string list" where
  "resolved_names print_fqcn t =
     (case those (map (resolved_name print_fqcn) (ref_entries t)) of
        None \<Rightarrow> Inl AssertionError
      | Some functions \<Rightarrow> Inr functions)"

text \<open>What one node adds to the list by itself, before its children are visited.\<close>

definition own_names :: "bool \<Rightarrow> element \<Rightarrow> error + string list" where
  "own_names print_fqcn e =
     (if is_ref e then
        (case resolved_name print_fqcn e of None \<Rightarrow> Inl AssertionError | Some f \<Rightarrow> Inr [f])
      else Inr [])"

text \<open>The same tree with the value of every \<open>target\<close> attribute replaced by \<open>f\<close> of it.\<close>

fun retarget :: "(string \<Rightarrow> string) \<Rightarrow> element \<Rightarrow> element" where
  "retarget f (Element tg at ch) =
     Element tg (map (\<lambda>(k, v). if k = ''target'' then (k, f v) else (k, v)) at)
       (map (retarget f) ch)"

text \<open>The column of the cursor: the number of characters written since the last newline.\<close>

definition column :: "string \<Rightarrow> int" where
  "column s = int (length (takeWhile (\<lambda>c. c \<noteq> newline) (rev s)))"

text \<open>What the loop writes for one name: the entry itself and the separator.\<close>

definition entry :: "string \<Rightarrow> string" where
  "entry function = [dquote] @ function @ [dquote] @ '', ''"

text \<open>What the loop writes at a wrap point: the ellipsis, a line break and ten spaces.\<close>

definition wrap :: string where
  "wrap = ''...'' @ [newline] @ ''          ''"

text \<open>
  The layout rule as the specification words it. \<open>layout pos names\<close> is the text written
  for \<open>names\<close> when the running column position is \<open>pos\<close>: a name whose width
  \<open>len(name) + 7\<close> would take the position beyond 79 is preceded by the ellipsis, a line
  break and ten spaces, and the position starts again from 10; every name is written in
  quotes and followed by a comma and a space, and moves the position on by
  \<open>len(name) + 4\<close>. \<open>position pos names\<close> is the running column position after \<open>names\<close>.
\<close>

fun layout :: "int \<Rightarrow> string list \<Rightarrow> string" where
  "layout pos [] = []"
| "layout pos (name # names) =
     (if pos + (int (length name) + 7) > 79
      then ''...'' @ [newline] @ replicate 10 (CHR '' '') @ [dquote] @ name @ [dquote] @ '', ''
           @ layout (10 + (int (length name) + 4)) names
      else [dquote] @ name @ [dquote] @ '', '' @ layout (pos + (int (length name) + 4)) names)"

fun position :: "int \<Rightarrow> string list \<Rightarrow> int" where
  "position pos [] = pos"
| "position pos (name # names) =
     (if pos + (int (length name) + 7) > 79
      then position (10 + (int (length name) + 4)) names
      else position (pos + (int (length name) + 4)) names)"

section \<open>Example inputs\<close>

text \<open>
  A reference list with a reference entry nested in another one, an entry below a
  grouping node, a repeated name, and a node that is no reference entry but carries a
  \<open>target\<close> attribute.
\<close>

definition example_nested :: element where
  "example_nested =
     Element ''reflist'' []
       [Element REF_TAG [(''name'', ''foo''), (''target'', ''ref/foo.html'')]
          [Element ''purpose'' [(''target'', ''x/y'')] [],
           Element REF_TAG [(''target'', ''ref/myclass.bar.html''), (''name'', ''Bar'')] []],
        Element ''group'' []
          [Element REF_TAG [(''name'', ''foo''), (''target'', ''ref/foo.html'')] []]]"

text \<open>The tree of the end-to-end scenario: two reference entries below the root.\<close>

definition example_two :: element where
  "example_two =
     Element ''reflist'' []
       [Element REF_TAG [(''name'', ''foo''), (''target'', ''ref/foo.html'')] [],
        Element REF_TAG [(''name'', ''Bar''), (''target'', ''ref/myclass.bar.html'')] []]"

text \<open>A reference entry without a \<open>target\<close> attribute, below a grouping node.\<close>

definition example_missing :: element where
  "example_missing =
     Element ''reflist'' []
       [Element ''group'' [] [Element REF_TAG [(''name'', ''foo'')] []]]"

text \<open>A reference entry whose target has a further path separator after \<open>ref/\<close>.\<close>

definition example_bad_target :: element where
  "example_bad_target =
     Element ''reflist'' []
       [Element REF_TAG [(''name'', ''foo''), (''target'', ''ref/pkg/foo.html'')] []]"

text \<open>
  Six names of six characters: after them the cursor stands in column 70, and a seventh
  name of six characters no longer fits.
\<close>

definition example_six :: "string list" where
  "example_six = [''func_1'', ''func_2'', ''func_3'', ''func_4'', ''func_5'', ''func_6'']"

text \<open>The six names above with a seventh, given out of order.\<close>

definition example_seven :: "string list" where
  "example_seven =
     [''func_7'', ''func_3'', ''func_1'', ''func_2'', ''func_6'', ''func_4'', ''func_5'']"


section \<open>Facts about the string primitives\<close>

lemma find_sub_single_None: "find_sub [c] s = None \<longleftrightarrow> c \<notin> set s"
  by (induction s) auto


lemma str_find_slash:
  "str_find (''ref/'' @ b @ ''.html'') ''/'' (Some 4) None = - 1 \<longleftrightarrow> CHR ''/'' \<notin> set b"
proof -
  have "str_find (''ref/'' @ b @ ''.html'') ''/'' (Some 4) None
        = (case find_sub ''/'' (b @ ''.html'') of None \<Rightarrow> - 1 | Some i \<Rightarrow> 4 + int i)"
    by (simp add: str_find_def adjust_index_def)
  moreover have "(case find_sub ''/'' (b @ ''.html'') of None \<Rightarrow> - 1 | Some i \<Rightarrow> 4 + int i) = (- 1 :: int)
        \<longleftrightarrow> CHR ''/'' \<notin> set (b @ ''.html'')"
    using find_sub_single_None[of "CHR ''/''" "b @ ''.html''"] by (auto split: option.splits)
  ultimately show ?thesis by simp
qed

lemma startswith_ref: "startswith (''ref/'' @ b @ ''.html'') ''ref/''"
  by (simp add: startswith_def)

lemma endswith_html: "endswith (''ref/'' @ b @ ''.html'') ''.html''"
  by (simp add: endswith_def)

lemma str_find_dot:
  "str_find (''ref/'' @ b @ ''.html'') ''.'' (Some 4) (Some (- 5)) > - 1 \<longleftrightarrow> CHR ''.'' \<in> set b"
proof -
  have "str_find (''ref/'' @ b @ ''.html'') ''.'' (Some 4) (Some (- 5))
        = (if b = [] then - 1
           else (case find_sub ''.'' b of None \<Rightarrow> - 1 | Some i \<Rightarrow> 4 + int i))"
    by (simp add: str_find_def adjust_index_def)
  also have "\<dots> = (case find_sub ''.'' b of None \<Rightarrow> - 1 | Some i \<Rightarrow> 4 + int i)"
    by simp
  finally have "str_find (''ref/'' @ b @ ''.html'') ''.'' (Some 4) (Some (- 5))
        = (case find_sub ''.'' b of None \<Rightarrow> - 1 | Some i \<Rightarrow> 4 + int i)" .
  moreover have "(case find_sub ''.'' b of None \<Rightarrow> - 1 | Some i \<Rightarrow> 4 + int i) > (- 1 :: int)
        \<longleftrightarrow> CHR ''.'' \<in> set b"
    using find_sub_single_None[of "CHR ''.''" b] by (auto split: option.splits)
  ultimately show ?thesis by simp
qed

lemma shape_of_affixes:
  assumes "startswith t ''ref/''" and "endswith t ''.html''"
  shows "\<exists>b. t = ''ref/'' @ b @ ''.html''"
proof -
  obtain r where r: "t = ''ref/'' @ r"
    using assms(1) unfolding startswith_def by (metis append_take_drop_id)
  obtain s where s: "t = s @ ''.html''"
    using assms(2) unfolding endswith_def by (metis append_take_drop_id)
  from r s have "''ref/'' @ r = s @ ''.html''" by simp
  then obtain us where
    "(''ref/'' = s @ us \<and> us @ r = ''.html'') \<or> (''ref/'' @ us = s \<and> r = us @ ''.html'')"
    unfolding append_eq_append_conv2 by blast
  then show ?thesis
  proof
    assume a: "''ref/'' = s @ us \<and> us @ r = ''.html''"
    show ?thesis
    proof (cases us)
      case Nil
      with a r show ?thesis by simp
    next
      case (Cons u us')
      with a have "u = CHR ''.''" by simp
      moreover from a Cons have "u \<in> set ''ref/''"
        by (metis in_set_conv_decomp)
      ultimately show ?thesis by simp
    qed
  next
    assume "''ref/'' @ us = s \<and> r = us @ ''.html''"
    with r show ?thesis by blast
  qed
qed

lemma has_dot_basename:
  "CHR ''/'' \<notin> set b \<Longrightarrow>
   has_dot_in_target_basename (''ref/'' @ b @ ''.html'') = Inr (CHR ''.'' \<in> set b)"
  by (simp only: has_dot_in_target_basename_def str_find_slash str_find_dot
        startswith_ref endswith_html) simp

lemma has_dot_fails_iff:
  "has_dot_in_target_basename target = Inl AssertionError \<longleftrightarrow> \<not> well_shaped target"
proof
  assume f: "has_dot_in_target_basename target = Inl AssertionError"
  show "\<not> well_shaped target"
  proof
    assume "well_shaped target"
    then obtain b where b: "target = ''ref/'' @ b @ ''.html''" "CHR ''/'' \<notin> set b"
      unfolding well_shaped_def by blast
    from has_dot_basename[OF b(2)] f show False unfolding b(1) by simp
  qed
next
  assume n: "\<not> well_shaped target"
  show "has_dot_in_target_basename target = Inl AssertionError"
  proof (rule ccontr)
    assume "has_dot_in_target_basename target \<noteq> Inl AssertionError"
    then have a: "startswith target ''ref/''" "endswith target ''.html''"
      and s: "str_find target ''/'' (Some 4) None = - 1"
      unfolding has_dot_in_target_basename_def by (auto split: if_splits)
    from shape_of_affixes[OF a] obtain b where b: "target = ''ref/'' @ b @ ''.html''" by blast
    from s have c: "CHR ''/'' \<notin> set b" unfolding b str_find_slash .
    have "well_shaped target" unfolding well_shaped_def using b c by blast
    with n show False by simp
  qed
qed

section \<open>Facts about the walk\<close>

lemma extend_all_shift:
  "extend_all fs rs = (case extend_all [] rs of Inl e \<Rightarrow> Inl e | Inr gs \<Rightarrow> Inr (fs @ gs))"
proof (induction rs arbitrary: fs)
  case Nil
  show ?case by simp
next
  case (Cons r rs)
  show ?case
  proof (cases r)
    case (Inl e)
    then show ?thesis by simp
  next
    case (Inr more)
    have "extend_all fs (r # rs) = extend_all (fs @ more) rs" using Inr by simp
    also have "\<dots> = (case extend_all [] rs of Inl e \<Rightarrow> Inl e | Inr gs \<Rightarrow> Inr ((fs @ more) @ gs))"
      by (rule Cons.IH)
    finally show ?thesis
      using Inr Cons.IH[of more] by (simp split: sum.splits)
  qed
qed

lemma extend_all_append:
  "extend_all fs (rs @ ss) =
     (case extend_all fs rs of Inl e \<Rightarrow> Inl e | Inr gs \<Rightarrow> extend_all gs ss)"
  by (induction rs arbitrary: fs) (auto split: sum.splits)

lemma has_dot_error: "has_dot_in_target_basename target = Inl e \<Longrightarrow> e = AssertionError"
  by (simp add: has_dot_in_target_basename_def split: if_splits)

lemma deep_search_flag_unfold:
  "deep_search_flag flag (Element tg at ch) =
     (case own_names flag (Element tg at ch) of
        Inl e \<Rightarrow> Inl e
      | Inr fs \<Rightarrow> extend_all fs (map (deep_search_flag flag) ch))"
  by (auto simp: own_names_def is_ref_def resolved_name_def dest: has_dot_error
      split: option.splits sum.splits)

lemma extend_all_children:
  assumes "\<And>c. c \<in> set ch \<Longrightarrow> f c = extend_all [] (map g (h c))"
  shows "extend_all fs (map f ch) = extend_all fs (map g (concat (map h ch)))"
  using assms
proof (induction ch arbitrary: fs)
  case Nil
  show ?case by simp
next
  case (Cons c ch)
  have c: "f c = extend_all [] (map g (h c))" by (rule Cons.prems) simp
  have ih: "\<And>fs. extend_all fs (map f ch) = extend_all fs (map g (concat (map h ch)))"
    by (rule Cons.IH) (simp add: Cons.prems)
  show ?case
    by (simp add: c ih extend_all_append extend_all_shift[of fs "map g (h c)"] split: sum.splits)
qed

lemma deep_search_flag_nodes:
  "deep_search_flag flag t = extend_all [] (map (own_names flag) (nodes t))"
proof (induction t)
  case (Element tg at ch)
  have "extend_all fs (map (deep_search_flag flag) ch)
        = extend_all fs (map (own_names flag) (concat (map nodes ch)))" for fs
    by (rule extend_all_children) (rule Element.IH)
  then show ?case
    by (simp add: deep_search_flag_unfold del: deep_search_flag.simps split: sum.splits)
qed

lemma extend_all_own_names:
  "extend_all fs (map (own_names flag) es) =
     (case those (map (resolved_name flag) (filter is_ref es)) of
        None \<Rightarrow> Inl AssertionError
      | Some gs \<Rightarrow> Inr (fs @ gs))"
proof (induction es arbitrary: fs)
  case Nil
  show ?case by simp
next
  case (Cons e es)
  show ?case
    by (simp add: Cons.IH own_names_def[of flag e] split: option.splits)
qed

lemma deep_search_flag_resolved: "deep_search_flag flag t = resolved_names flag t"
  by (simp add: deep_search_flag_nodes extend_all_own_names resolved_names_def ref_entries_def
      split: option.splits)






section \<open>The claims about the name resolver\<close>







text \<open>
  Claim C2. For every basename \<open>b\<close> without a \<open>/\<close>, the predicate applied to
  \<open>"ref/" + b + ".html"\<close> passes its assertion and returns whether \<open>b\<close> contains a dot.
\<close>

theorem has_dot_in_target_basename_iff:
  assumes "CHR ''/'' \<notin> set b"
  shows "has_dot_in_target_basename (''ref/'' @ b @ ''.html'') = Inr (CHR ''.'' \<in> set b)"
proof -
  let ?target = "''ref/'' @ b @ ''.html''"
  have asserted: "startswith ?target ''ref/'' \<and> str_find ?target ''/'' (Some 4) None = - 1
      \<and> endswith ?target ''.html''"
    using assms by (simp only: startswith_ref endswith_html str_find_slash simp_thms)
  have "str_find ?target ''.'' (Some 4) (Some (- 5)) > - 1 \<longleftrightarrow> CHR ''.'' \<in> set b"
    by (rule str_find_dot)
  with asserted show ?thesis
    by (simp only: has_dot_in_target_basename_def) simp
qed

theorem has_dot_in_target_basename_iff_witness:
  "CHR ''/'' \<notin> set ''myclass.bar''
   \<and> has_dot_in_target_basename ''ref/myclass.bar.html'' = Inr True
   \<and> CHR ''/'' \<notin> set ''foo''
   \<and> has_dot_in_target_basename ''ref/foo.html'' = Inr False"
proof -
  have h1: "CHR ''/'' \<notin> set ''myclass.bar''" by simp
  have h2: "CHR ''/'' \<notin> set ''foo''" by simp
  show ?thesis
    using has_dot_in_target_basename_iff[OF h1] has_dot_in_target_basename_iff[OF h2] by simp
qed

section \<open>The claims about the walk\<close>

lemma those_map_Some: "those xs = Some ys \<Longrightarrow> map Some ys = xs"
  by (induction xs arbitrary: ys) (auto split: option.splits)

text \<open>
  Claim C6. For every tree the walker agrees with the walk of the specification: every
  node of the tree is visited, whether or not its parent is a reference entry, and the
  result is the list of the resolved names of all reference entries in document order
  (depth first, a node before its children), one name for each entry, so that repeated
  names stay; the walk fails when an entry violates the schema.
\<close>

theorem deep_search_for_functions_document_order:
  "deep_search_for_functions t = resolved_names PRINT_FQCN t
   \<and> (\<forall>functions. deep_search_for_functions t = Inr functions \<longrightarrow>
         map Some functions = map (resolved_name PRINT_FQCN) (ref_entries t))"
  by (auto simp: deep_search_for_functions_def deep_search_flag_resolved resolved_names_def
      dest: those_map_Some split: option.splits)

lemma has_dot_foo: "has_dot_in_target_basename ''ref/foo.html'' = Inr False"
  using has_dot_basename[of "''foo''"] by simp

lemma has_dot_myclass_bar: "has_dot_in_target_basename ''ref/myclass.bar.html'' = Inr True"
  using has_dot_basename[of "''myclass.bar''"] by simp

lemma parse_myclass_bar: "parse_fq_class_name ''ref/myclass.bar.html'' ''Bar'' = ''myclass.Bar''"
  by (simp add: parse_fq_class_name_def slice_def adjust_index_def)

lemma REF_TAG_neq: "''reflist'' \<noteq> REF_TAG" "''group'' \<noteq> REF_TAG" "''purpose'' \<noteq> REF_TAG"
  by (simp_all add: REF_TAG_def)

lemma deep_search_example_nested:
  "deep_search_for_functions example_nested = Inr [''foo'', ''myclass.Bar'', ''foo'']"
  by (simp add: deep_search_for_functions_def PRINT_FQCN_def example_nested_def REF_TAG_neq
      has_dot_foo has_dot_myclass_bar parse_myclass_bar)

theorem deep_search_for_functions_document_order_witness:
  "deep_search_for_functions example_nested = Inr [''foo'', ''myclass.Bar'', ''foo'']
   \<and> map (resolved_name PRINT_FQCN) (ref_entries example_nested)
       = [Some ''foo'', Some ''myclass.Bar'', Some ''foo'']"
  using deep_search_for_functions_document_order[of example_nested] deep_search_example_nested
  by simp

section \<open>Facts about the formatter\<close>

lemma print_function_out:
  "out (print_function f st) =
     out st @ (if cur_pos st + (int (length f) + 7) > 79 then wrap else []) @ entry f"
  by (simp add: print_function_def print_end_def print_line_def wrap_def entry_def Let_def)

lemma print_function_cur_pos:
  "cur_pos (print_function f st) =
     (if cur_pos st + (int (length f) + 7) > 79 then 10 else cur_pos st) + (int (length f) + 4)"
  by (simp add: print_function_def print_end_def print_line_def Let_def)

lemma print_header_state: "out print_header = ''    case {''" "cur_pos print_header = 10"
  by (simp_all add: print_header_def print_end_def)

lemma print_loop_Nil: "print_loop [] st = st"
  by (simp add: print_loop_def)

lemma print_loop_Cons: "print_loop (f # fs) st = print_loop fs (print_function f st)"
  by (simp add: print_loop_def)

lemma print_loop_snoc: "print_loop (fs @ [f]) st = print_function f (print_loop fs st)"
  by (simp add: print_loop_def)

lemma ten_spaces: "''          '' = replicate 10 (CHR '' '')"
  by (simp add: eval_nat_numeral)

lemma takeWhile_rev_line:
  "newline \<notin> set t \<Longrightarrow>
   takeWhile (\<lambda>c. c \<noteq> newline) (rev t @ r) = rev t @ takeWhile (\<lambda>c. c \<noteq> newline) r"
  by (rule takeWhile_append2) auto

lemma column_append_line: "newline \<notin> set t \<Longrightarrow> column (s @ t) = column s + int (length t)"
  by (simp add: column_def takeWhile_rev_line)

lemma column_append_break: "newline \<notin> set t \<Longrightarrow> column (s @ [newline] @ t) = int (length t)"
  by (simp add: column_def takeWhile_rev_line)

lemma column_wrap: "column (s @ wrap) = 10"
proof -
  have "column (s @ wrap) = column ((s @ ''...'') @ [newline] @ ''          '')"
    by (simp add: wrap_def)
  also have "\<dots> = int (length ''          '')"
    by (rule column_append_break) (simp add: newline_def)
  finally show ?thesis by simp
qed

lemma newline_entry: "newline \<notin> set f \<Longrightarrow> newline \<notin> set (entry f)"
  by (simp add: entry_def newline_def dquote_def)

lemma length_entry: "int (length (entry f)) = int (length f) + 4"
  by (simp add: entry_def)

lemma print_function_column:
  assumes "newline \<notin> set f" and "cur_pos st = column (out st)"
  shows "cur_pos (print_function f st) = column (out (print_function f st))"
proof (cases "cur_pos st + (int (length f) + 7) > 79")
  case True
  have "column (out (print_function f st)) = column ((out st @ wrap) @ entry f)"
    using True by (simp add: print_function_out)
  also have "\<dots> = column (out st @ wrap) + int (length (entry f))"
    by (rule column_append_line) (rule newline_entry[OF assms(1)])
  finally show ?thesis
    using True by (simp add: column_wrap length_entry print_function_cur_pos)
next
  case False
  have "column (out (print_function f st)) = column (out st @ entry f)"
    using False by (simp add: print_function_out)
  also have "\<dots> = column (out st) + int (length (entry f))"
    by (rule column_append_line) (rule newline_entry[OF assms(1)])
  finally show ?thesis
    using False assms(2) by (simp add: length_entry print_function_cur_pos)
qed

lemma print_loop_column:
  assumes "\<forall>f \<in> set fs. newline \<notin> set f" and "cur_pos st = column (out st)"
  shows "cur_pos (print_loop fs st) = column (out (print_loop fs st))"
  using assms
proof (induction fs arbitrary: st)
  case Nil
  then show ?case by (simp add: print_loop_Nil)
next
  case (Cons f fs)
  have "cur_pos (print_function f st) = column (out (print_function f st))"
    using Cons.prems by (intro print_function_column) simp_all
  with Cons show ?case by (simp add: print_loop_Cons)
qed

lemma column_header: "cur_pos print_header = column (out print_header)"
  by (simp add: print_header_state column_def newline_def)

lemma print_loop_entries:
  "\<exists>ws. length ws = length fs \<and> set ws \<subseteq> {[], wrap}
        \<and> out (print_loop fs st) = out st @ concat (map2 (\<lambda>w f. w @ entry f) ws fs)"
proof (induction fs arbitrary: st)
  case Nil
  show ?case by (simp add: print_loop_Nil)
next
  case (Cons f fs)
  let ?w = "if cur_pos st + (int (length f) + 7) > 79 then wrap else []"
  obtain ws where ws: "length ws = length fs" "set ws \<subseteq> {[], wrap}"
    "out (print_loop fs (print_function f st))
       = out (print_function f st) @ concat (map2 (\<lambda>w f. w @ entry f) ws fs)"
    using Cons.IH[of "print_function f st"] by blast
  have "length (?w # ws) = length (f # fs)" using ws(1) by simp
  moreover have "set (?w # ws) \<subseteq> {[], wrap}" using ws(2) by simp
  moreover have "out (print_loop (f # fs) st)
      = out st @ concat (map2 (\<lambda>w f. w @ entry f) (?w # ws) (f # fs))"
    by (simp add: print_loop_Cons ws(3) print_function_out)
  ultimately show ?case by blast
qed

lemma print_for_octave_entries:
  "\<exists>ws. length ws = length fs \<and> set ws \<subseteq> {[], wrap}
        \<and> print_for_octave fs
            = ''    case {'' @ concat (map2 (\<lambda>w f. w @ entry f) ws (sorted_py fs)) @ ''}'' @ [newline]"
proof -
  obtain ws where "length ws = length (sorted_py fs)" "set ws \<subseteq> {[], wrap}"
    "out (print_loop (sorted_py fs) print_header)
       = out print_header @ concat (map2 (\<lambda>w f. w @ entry f) ws (sorted_py fs))"
    using print_loop_entries[of "sorted_py fs" print_header] by blast
  then show ?thesis
    by (intro exI[of _ ws])
      (simp add: print_for_octave_def print_line_def print_end_def print_header_state sorted_py_def)
qed

lemma sorted_example: "sorted_py [''zeta'', ''Alpha'', ''beta''] = [''Alpha'', ''beta'', ''zeta'']"
  by (simp add: sorted_py_def)

lemma sorted_two: "sorted_py [''foo'', ''myclass.Bar''] = [''foo'', ''myclass.Bar'']"
  by (simp add: sorted_py_def)

lemma print_two:
  "print_for_octave [''foo'', ''myclass.Bar'']
     = ''    case {'' @ [dquote] @ ''foo'' @ [dquote] @ '', '' @ [dquote] @ ''myclass.Bar'' @ [dquote] @ '', }'' @ [newline]"
  by (simp add: print_for_octave_def sorted_two print_loop_def print_function_def print_header_def
      print_end_def print_line_def Let_def)

lemma print_example:
  "print_for_octave [''zeta'', ''Alpha'', ''beta'']
     = ''    case {'' @ [dquote] @ ''Alpha'' @ [dquote] @ '', '' @ [dquote] @ ''beta'' @ [dquote] @ '', ''
        @ [dquote] @ ''zeta'' @ [dquote] @ '', }'' @ [newline]"
  by (simp add: print_for_octave_def sorted_example print_loop_def print_function_def print_header_def
      print_end_def print_line_def Let_def)


section \<open>The claims about the formatter\<close>

lemma print_loop_layout:
  "out (print_loop names st) = out st @ layout (cur_pos st) names
   \<and> cur_pos (print_loop names st) = position (cur_pos st) names"
proof (induction names arbitrary: st)
  case Nil
  show ?case by (simp add: print_loop_Nil)
next
  case (Cons name names)
  show ?case
    by (simp add: print_loop_Cons Cons.IH print_function_out print_function_cur_pos
        wrap_def entry_def eval_nat_numeral)
qed

lemma layout_snoc:
  "layout pos (names @ [name]) =
     layout pos names
     @ (if position pos names + (int (length name) + 7) > 79
        then ''...'' @ [newline] @ replicate 10 (CHR '' '') else [])
     @ [dquote] @ name @ [dquote] @ '', ''"
  by (induction names arbitrary: pos) simp_all

lemma position_snoc:
  "position pos (names @ [name]) =
     (if position pos names + (int (length name) + 7) > 79 then 10 else position pos names)
     + (int (length name) + 4)"
  by (induction names arbitrary: pos) simp_all

lemma position_column:
  assumes "\<forall>g \<in> set names. newline \<notin> set g"
  shows "position 10 names = column (''    case {'' @ layout 10 names)"
proof -
  have "cur_pos (print_loop names print_header) = column (out (print_loop names print_header))"
    using assms column_header by (rule print_loop_column)
  then show ?thesis
    by (simp add: print_loop_layout print_header_state)
qed

text \<open>
  Claim C4. The formatter writes the header \<open>    case {\<close>, which leaves the cursor in
  column 10, then the sorted names laid out from the column position 10, then the
  closing brace. In that layout the text written for a name is decided by the column
  position after the names before it: when that position plus \<open>len(name) + 7\<close> exceeds
  79, and only then, the ellipsis, a line break and exactly ten spaces come before the
  entry, and the position counts from 10 again; after each name the position has
  advanced by \<open>len(name) + 4\<close>. The variable \<open>cur_pos\<close> of the loop holds this position,
  and as long as no name contains a newline of its own the position is the column of the
  cursor.
\<close>

theorem print_for_octave_layout:
  "print_for_octave fs = ''    case {'' @ layout 10 (sorted_py fs) @ ''}'' @ [newline]
   \<and> column ''    case {'' = 10
   \<and> layout 10 (names @ [name])
       = layout 10 names
         @ (if position 10 names + (int (length name) + 7) > 79
            then ''...'' @ [newline] @ replicate 10 (CHR '' '') else [])
         @ [dquote] @ name @ [dquote] @ '', ''
   \<and> position 10 (names @ [name])
       = (if position 10 names + (int (length name) + 7) > 79 then 10 else position 10 names)
         + (int (length name) + 4)
   \<and> out (print_loop names print_header) = ''    case {'' @ layout 10 names
   \<and> cur_pos (print_loop names print_header) = position 10 names
   \<and> ((\<forall>g \<in> set names. newline \<notin> set g) \<longrightarrow>
         position 10 names = column (''    case {'' @ layout 10 names))"
proof -
  have l: "out (print_loop ns print_header) = ''    case {'' @ layout 10 ns"
    and p: "cur_pos (print_loop ns print_header) = position 10 ns" for ns
    using print_loop_layout[of ns print_header] by (simp_all add: print_header_state)
  have "print_for_octave fs = ''    case {'' @ layout 10 (sorted_py fs) @ ''}'' @ [newline]"
    by (simp add: print_for_octave_def print_line_def print_end_def l)
  moreover have "column ''    case {'' = 10"
    using column_header by (simp add: print_header_state)
  ultimately show ?thesis
    using layout_snoc[of 10 names name] position_snoc[of 10 names name] l[of names] p[of names]
      position_column[of names]
    by blast
qed

lemma sorted_example_seven: "sorted_py example_seven = example_six @ [''func_7'']"
  by (simp add: sorted_py_def example_seven_def example_six_def)

lemma example_six_lines: "list_all (\<lambda>g. newline \<notin> set g) example_six"
  by (simp add: example_six_def newline_def)

lemma example_six_layout:
  "layout 10 example_six
     = [dquote] @ ''func_1'' @ [dquote] @ '', '' @ [dquote] @ ''func_2'' @ [dquote] @ '', ''
       @ [dquote] @ ''func_3'' @ [dquote] @ '', '' @ [dquote] @ ''func_4'' @ [dquote] @ '', ''
       @ [dquote] @ ''func_5'' @ [dquote] @ '', '' @ [dquote] @ ''func_6'' @ [dquote] @ '', ''"
  "position 10 example_six = 70"
  by (simp_all add: example_six_def)

theorem print_for_octave_layout_witness:
  "list_all (\<lambda>g. newline \<notin> set g) example_six
   \<and> sorted_py example_seven = example_six @ [''func_7'']
   \<and> position 10 example_six = 70
   \<and> column (''    case {'' @ layout 10 example_six) = 70
   \<and> position 10 (example_six @ [''func_7'']) = 20
   \<and> print_for_octave example_seven
       = ''    case {''
         @ [dquote] @ ''func_1'' @ [dquote] @ '', '' @ [dquote] @ ''func_2'' @ [dquote] @ '', ''
         @ [dquote] @ ''func_3'' @ [dquote] @ '', '' @ [dquote] @ ''func_4'' @ [dquote] @ '', ''
         @ [dquote] @ ''func_5'' @ [dquote] @ '', '' @ [dquote] @ ''func_6'' @ [dquote] @ '', ''
         @ ''...'' @ [newline] @ ''          '' @ [dquote] @ ''func_7'' @ [dquote] @ '', ''
         @ ''}'' @ [newline]"
proof -
  have h: "\<forall>g \<in> set example_six. newline \<notin> set g"
    using example_six_lines by (simp add: list_all_iff)
  show ?thesis
    using print_for_octave_layout[of example_seven example_six "''func_7''"] h example_six_lines
    by (simp add: sorted_example_seven example_six_layout eval_nat_numeral)
qed

lemma upper_before_lower:
  "CHR ''A'' \<le> c \<and> c \<le> CHR ''Z'' \<and> CHR ''a'' \<le> d \<and> d \<le> CHR ''z'' \<Longrightarrow> c # xs < d # ys"
  by (auto simp: less_eq_char_def less_char_def)

text \<open>
  Claim C7. The formatter prints the names in the order of \<open>sorted\<close>: the list is sorted
  and a rearrangement of the input, equal names keep their relative order (the sort is
  stable), and the entries are written in that order. The order is the lexicographic
  order on code points, so it is case sensitive and every capital letter comes before
  every lower-case letter; \<open>["zeta", "Alpha", "beta"]\<close> is printed as
  \<open>"Alpha", "beta", "zeta"\<close>.
\<close>

theorem print_for_octave_sorted:
  "sorted (sorted_py fs) \<and> mset (sorted_py fs) = mset fs
   \<and> filter (\<lambda>g. g = k) (sorted_py fs) = filter (\<lambda>g. g = k) fs
   \<and> (\<exists>ws. length ws = length fs \<and> set ws \<subseteq> {[], wrap}
          \<and> print_for_octave fs
              = ''    case {''
                @ concat (map2 (\<lambda>w g. w @ [dquote] @ g @ [dquote] @ '', '') ws (sorted_py fs))
                @ ''}'' @ [newline])
   \<and> ((x # xs \<le> y # ys) = ((of_char x :: nat) < of_char y \<or> x = y \<and> xs \<le> ys))
   \<and> ([] \<le> ys) \<and> \<not> (x # xs \<le> [])
   \<and> (CHR ''A'' \<le> c \<and> c \<le> CHR ''Z'' \<and> CHR ''a'' \<le> d \<and> d \<le> CHR ''z'' \<longrightarrow> c # xs < d # ys)
   \<and> sorted_py [''zeta'', ''Alpha'', ''beta''] = [''Alpha'', ''beta'', ''zeta'']
   \<and> print_for_octave [''zeta'', ''Alpha'', ''beta'']
       = ''    case {'' @ [dquote] @ ''Alpha'' @ [dquote] @ '', '' @ [dquote] @ ''beta'' @ [dquote]
         @ '', '' @ [dquote] @ ''zeta'' @ [dquote] @ '', }'' @ [newline]"
proof -
  have "filter (\<lambda>g. g = k) (sorted_py fs) = filter (\<lambda>g. g = k) fs"
    unfolding sorted_py_def using sort_key_stable[of "\<lambda>g. g" k fs] by simp
  moreover have "\<exists>ws. length ws = length fs \<and> set ws \<subseteq> {[], wrap}
          \<and> print_for_octave fs
              = ''    case {''
                @ concat (map2 (\<lambda>w g. w @ [dquote] @ g @ [dquote] @ '', '') ws (sorted_py fs))
                @ ''}'' @ [newline]"
    using print_for_octave_entries[of fs] unfolding entry_def by blast
  moreover have "(x # xs \<le> y # ys) = ((of_char x :: nat) < of_char y \<or> x = y \<and> xs \<le> ys)"
    by (simp add: less_char_def)
  moreover have "sorted (sorted_py fs)" "mset (sorted_py fs) = mset fs"
    by (simp_all add: sorted_py_def)
  moreover have "CHR ''A'' \<le> c \<and> c \<le> CHR ''Z'' \<and> CHR ''a'' \<le> d \<and> d \<le> CHR ''z'' \<longrightarrow> c # xs < d # ys"
    using upper_before_lower by blast
  ultimately show ?thesis
    using sorted_example print_example by simp
qed

theorem print_for_octave_sorted_witness:
  "CHR ''A'' \<le> CHR ''A'' \<and> CHR ''A'' \<le> CHR ''Z'' \<and> CHR ''a'' \<le> CHR ''b'' \<and> CHR ''b'' \<le> CHR ''z''
   \<and> ''Alpha'' < ''beta''
   \<and> sorted (sorted_py [''zeta'', ''Alpha'', ''beta''])
   \<and> sorted_py [''zeta'', ''Alpha'', ''beta''] = [''Alpha'', ''beta'', ''zeta'']"
  using print_for_octave_sorted[of "[''zeta'', ''Alpha'', ''beta'']" "''beta''" "CHR ''A''" "''lpha''"
      "CHR ''b''" "''eta''" "CHR ''A''" "CHR ''b''"]
  by simp

lemma concat_entries_end:
  assumes "length ws = length gs" and "gs \<noteq> []"
  shows "\<exists>pre. concat (map2 (\<lambda>w g. w @ entry g) ws gs) = pre @ '', ''"
proof -
  from assms have "ws \<noteq> []" by auto
  then have ws: "ws = butlast ws @ [last ws]" by simp
  from assms(2) have gs: "gs = butlast gs @ [last gs]" by simp
  have "zip ws gs = zip (butlast ws) (butlast gs) @ [(last ws, last gs)]"
    by (subst ws, subst gs) (simp add: assms(1))
  then have "concat (map2 (\<lambda>w g. w @ entry g) ws gs)
      = (concat (map2 (\<lambda>w g. w @ entry g) (butlast ws) (butlast gs)) @ last ws
          @ [dquote] @ last gs @ [dquote]) @ '', ''"
    by (simp add: entry_def)
  then show ?thesis by blast
qed

text \<open>
  Claim C8. The output is the header, then for each sorted name an optional wrap, the
  quoted name and the separator \<open>, \<close>, then the closing brace and the newline of
  \<open>print\<close>. So for a list that is not empty the printed line ends with \<open>, }\<close>.
  (For the empty list it is \<open>    case {}\<close>: see \<open>print_none\<close>.)
\<close>

theorem print_for_octave_trailing:
  "(\<exists>ws. length ws = length fs \<and> set ws \<subseteq> {[], wrap}
        \<and> print_for_octave fs
            = ''    case {''
              @ concat (map2 (\<lambda>w g. w @ [dquote] @ g @ [dquote] @ '', '') ws (sorted_py fs))
              @ ''}'' @ [newline])
   \<and> (fs \<noteq> [] \<longrightarrow> (\<exists>pre. print_for_octave fs = pre @ '', }'' @ [newline]))"
proof -
  obtain ws where ws: "length ws = length fs" "set ws \<subseteq> {[], wrap}"
    "print_for_octave fs
       = ''    case {'' @ concat (map2 (\<lambda>w g. w @ entry g) ws (sorted_py fs)) @ ''}'' @ [newline]"
    using print_for_octave_entries[of fs] by blast
  have "\<exists>pre. print_for_octave fs = pre @ '', }'' @ [newline]" if "fs \<noteq> []"
  proof -
    have "length ws = length (sorted_py fs)" "sorted_py fs \<noteq> []"
      using ws(1) that by (auto simp: sorted_py_def dest: arg_cong[where f=length])
    then obtain pre where "concat (map2 (\<lambda>w g. w @ entry g) ws (sorted_py fs)) = pre @ '', ''"
      using concat_entries_end by blast
    then have "print_for_octave fs = (''    case {'' @ pre) @ '', }'' @ [newline]"
      by (simp add: ws(3))
    then show ?thesis by blast
  qed
  then show ?thesis
    using ws unfolding entry_def by blast
qed

lemma print_single:
  "print_for_octave [''abs''] = ''    case {'' @ [dquote] @ ''abs'' @ [dquote] @ '', }'' @ [newline]"
  by (simp add: print_for_octave_def sorted_py_def print_loop_def print_function_def print_header_def
      print_end_def print_line_def Let_def)

lemma print_none: "print_for_octave [] = ''    case {}'' @ [newline]"
  by (simp add: print_for_octave_def sorted_py_def print_loop_def print_header_def
      print_end_def print_line_def)

theorem print_for_octave_trailing_witness:
  "[''abs''] \<noteq> []
   \<and> print_for_octave [''abs''] = (''    case {'' @ [dquote] @ ''abs'' @ [dquote]) @ '', }'' @ [newline]"
  using print_for_octave_trailing[of "[''abs'']"] print_single by simp

section \<open>The end-to-end scenario\<close>

text \<open>
  Claim C3. For a tree whose reference entries are, in document order, one with
  \<open>name="foo"\<close>, \<open>target="ref/foo.html"\<close> and one with \<open>name="Bar"\<close>,
  \<open>target="ref/myclass.bar.html"\<close>, the walker returns \<open>["foo", "myclass.Bar"]\<close> and the
  formatter writes exactly the line \<open>    case {"foo", "myclass.Bar", }\<close>; the program
  ends with status 0.
\<close>

theorem two_entries_end_to_end:
  assumes "map (\<lambda>e. (map_of (attrib e) ''name'', map_of (attrib e) ''target'')) (ref_entries t)
             = [(Some ''foo'', Some ''ref/foo.html''), (Some ''Bar'', Some ''ref/myclass.bar.html'')]"
  shows "deep_search_for_functions t = Inr [''foo'', ''myclass.Bar'']
         \<and> print_for_octave [''foo'', ''myclass.Bar'']
             = ''    case {'' @ [dquote] @ ''foo'' @ [dquote] @ '', '' @ [dquote] @ ''myclass.Bar''
               @ [dquote] @ '', }'' @ [newline]
         \<and> main_from_tree t
             = (''    case {'' @ [dquote] @ ''foo'' @ [dquote] @ '', '' @ [dquote] @ ''myclass.Bar''
               @ [dquote] @ '', }'' @ [newline], 0)"
proof -
  from assms obtain e1 e2 where es: "ref_entries t = [e1, e2]"
    and e1: "map_of (attrib e1) ''name'' = Some ''foo''" "map_of (attrib e1) ''target'' = Some ''ref/foo.html''"
    and e2: "map_of (attrib e2) ''name'' = Some ''Bar''"
      "map_of (attrib e2) ''target'' = Some ''ref/myclass.bar.html''"
    by auto
  have "resolved_name True e1 = Some ''foo''"
    by (simp add: resolved_name_def e1 has_dot_foo)
  moreover have "resolved_name True e2 = Some ''myclass.Bar''"
    by (simp add: resolved_name_def e2 has_dot_myclass_bar parse_myclass_bar)
  ultimately have d: "deep_search_for_functions t = Inr [''foo'', ''myclass.Bar'']"
    by (simp add: deep_search_for_functions_def PRINT_FQCN_def deep_search_flag_resolved
        resolved_names_def es)
  show ?thesis
    by (simp only: d print_two main_from_tree_def sum.case)
qed

lemma example_two_entries:
  "map (\<lambda>e. (map_of (attrib e) ''name'', map_of (attrib e) ''target'')) (ref_entries example_two)
     = [(Some ''foo'', Some ''ref/foo.html''), (Some ''Bar'', Some ''ref/myclass.bar.html'')]"
  by (simp add: example_two_def ref_entries_def is_ref_def REF_TAG_neq)

theorem two_entries_end_to_end_witness:
  "map (\<lambda>e. (map_of (attrib e) ''name'', map_of (attrib e) ''target'')) (ref_entries example_two)
     = [(Some ''foo'', Some ''ref/foo.html''), (Some ''Bar'', Some ''ref/myclass.bar.html'')]
   \<and> deep_search_for_functions example_two = Inr [''foo'', ''myclass.Bar'']
   \<and> main_from_tree example_two
       = (''    case {'' @ [dquote] @ ''foo'' @ [dquote] @ '', '' @ [dquote] @ ''myclass.Bar''
          @ [dquote] @ '', }'' @ [newline], 0)"
  using two_entries_end_to_end[OF example_two_entries] example_two_entries by simp

section \<open>The claims about schema violations\<close>

lemma those_None_iff: "those xs = None \<longleftrightarrow> None \<in> set xs"
  by (induction xs) (auto split: option.splits)

lemma resolved_names_fails_iff:
  "resolved_names flag t = Inl AssertionError
     \<longleftrightarrow> (\<exists>e \<in> set (ref_entries t). resolved_name flag e = None)"
proof -
  have "resolved_names flag t = Inl AssertionError
          \<longleftrightarrow> those (map (resolved_name flag) (ref_entries t)) = None"
    by (simp add: resolved_names_def split: option.splits)
  also have "\<dots> \<longleftrightarrow> None \<in> resolved_name flag ` set (ref_entries t)"
    by (simp add: those_None_iff)
  also have "\<dots> \<longleftrightarrow> (\<exists>e \<in> set (ref_entries t). resolved_name flag e = None)"
    by (metis (no_types, lifting) imageE image_eqI)
  finally show ?thesis .
qed

lemma resolved_names_error: "resolved_names flag t = Inl x \<Longrightarrow> x = AssertionError"
  by (simp add: resolved_names_def split: option.splits)

text \<open>The subscripts come after the assertion, so the walk never raises \<open>KeyError\<close>.\<close>

lemma deep_search_flag_no_KeyError: "deep_search_flag flag t \<noteq> Inl KeyError"
  using resolved_names_error[of flag t KeyError] by (auto simp: deep_search_flag_resolved)

lemma ref_entry_fails:
  assumes "e \<in> set (nodes t)" and "tag e = REF_TAG" and "resolved_name flag e = None"
  shows "deep_search_flag flag t = Inl AssertionError"
proof -
  have "e \<in> set (ref_entries t)"
    using assms(1,2) by (simp add: ref_entries_def is_ref_def)
  with assms(3) show ?thesis
    unfolding deep_search_flag_resolved resolved_names_fails_iff by blast
qed

lemma resolved_name_missing:
  "attrib e = [] \<or> map_of (attrib e) ''name'' = None \<or> map_of (attrib e) ''target'' = None
   \<Longrightarrow> resolved_name flag e = None"
  by (auto simp: resolved_name_def split: option.splits)

lemma main_from_tree_fails:
  "deep_search_for_functions t = Inl x \<Longrightarrow> main_from_tree t = ([], 1)"
  by (simp add: main_from_tree_def)

text \<open>
  Claim C9. When some node of the tree carries the reference-entry tag and has no
  attributes at all, no \<open>name\<close> or no \<open>target\<close>, the walk raises \<open>AssertionError\<close>,
  whatever the flag: the node is not skipped and no default is used. Nothing is printed
  and the program ends with status 1.
\<close>

theorem missing_attribute_is_fatal:
  assumes "e \<in> set (nodes t)" and "tag e = REF_TAG"
    and "attrib e = [] \<or> map_of (attrib e) ''name'' = None \<or> map_of (attrib e) ''target'' = None"
  shows "deep_search_flag print_fqcn t = Inl AssertionError
         \<and> deep_search_for_functions t = Inl AssertionError
         \<and> main_from_tree t = ([], 1)"
proof -
  have f: "deep_search_flag flag t = Inl AssertionError" for flag
    using assms(1,2) resolved_name_missing[OF assms(3)] by (rule ref_entry_fails)
  then have "deep_search_for_functions t = Inl AssertionError"
    by (simp add: deep_search_for_functions_def)
  with f show ?thesis by (simp add: main_from_tree_fails)
qed

lemma example_missing_node:
  "Element REF_TAG [(''name'', ''foo'')] [] \<in> set (nodes example_missing)"
  by (simp add: example_missing_def)

theorem missing_attribute_is_fatal_witness:
  "Element REF_TAG [(''name'', ''foo'')] [] \<in> set (nodes example_missing)
   \<and> map_of [(''name'', ''foo'')] ''target'' = None
   \<and> deep_search_flag True example_missing = Inl AssertionError
   \<and> deep_search_flag False example_missing = Inl AssertionError
   \<and> main_from_tree example_missing = ([], 1)"
  using missing_attribute_is_fatal[OF example_missing_node, of True]
    missing_attribute_is_fatal[OF example_missing_node, of False] example_missing_node
  by simp

lemma well_shaped_iff:
  "well_shaped target \<longleftrightarrow>
     startswith target ''ref/'' \<and> CHR ''/'' \<notin> set (drop 4 target) \<and> endswith target ''.html''"
proof
  assume "well_shaped target"
  then obtain b where "target = ''ref/'' @ b @ ''.html''" "CHR ''/'' \<notin> set b"
    unfolding well_shaped_def by blast
  then show "startswith target ''ref/'' \<and> CHR ''/'' \<notin> set (drop 4 target) \<and> endswith target ''.html''"
    by (simp add: startswith_def endswith_def)
next
  assume a: "startswith target ''ref/'' \<and> CHR ''/'' \<notin> set (drop 4 target) \<and> endswith target ''.html''"
  then obtain b where b: "target = ''ref/'' @ b @ ''.html''"
    using shape_of_affixes by blast
  with a have "CHR ''/'' \<notin> set b" by simp
  with b show "well_shaped target" unfolding well_shaped_def by blast
qed

lemma resolved_name_bad_target:
  "map_of (attrib e) ''target'' = Some target \<Longrightarrow> \<not> well_shaped target
   \<Longrightarrow> resolved_name True e = None"
  using has_dot_fails_iff[of target]
  by (auto simp: resolved_name_def split: option.splits sum.splits)

text \<open>
  Claim C5. A target has the fixed shape exactly when it starts with \<open>ref/\<close>, has no \<open>/\<close>
  after these four characters and ends with \<open>.html\<close>; the assertion of
  \<open>has_dot_in_target_basename\<close> fails exactly on the other targets. With the flag as the
  script sets it, a reference entry anywhere in the tree whose target has not the fixed
  shape makes the walk raise \<open>AssertionError\<close>: the entry is not skipped, nothing is
  printed and the program ends with status 1.
\<close>

theorem malformed_target_is_fatal:
  "(well_shaped target \<longleftrightarrow>
      startswith target ''ref/'' \<and> CHR ''/'' \<notin> set (drop 4 target) \<and> endswith target ''.html'')
   \<and> (has_dot_in_target_basename target = Inl AssertionError \<longleftrightarrow> \<not> well_shaped target)
   \<and> (e \<in> set (nodes t) \<and> tag e = REF_TAG \<and> map_of (attrib e) ''target'' = Some target
        \<and> \<not> well_shaped target
       \<longrightarrow> deep_search_for_functions t = Inl AssertionError \<and> main_from_tree t = ([], 1))"
proof -
  have "deep_search_for_functions t = Inl AssertionError \<and> main_from_tree t = ([], 1)"
    if "e \<in> set (nodes t)" "tag e = REF_TAG" "map_of (attrib e) ''target'' = Some target"
      "\<not> well_shaped target"
  proof -
    have "deep_search_flag True t = Inl AssertionError"
      using that(1,2) resolved_name_bad_target[OF that(3,4)] by (rule ref_entry_fails)
    then have "deep_search_for_functions t = Inl AssertionError"
      by (simp add: deep_search_for_functions_def PRINT_FQCN_def)
    then show ?thesis by (simp add: main_from_tree_fails)
  qed
  then show ?thesis
    using well_shaped_iff[of target] has_dot_fails_iff[of target] by blast
qed

lemma example_bad_target_node:
  "Element REF_TAG [(''name'', ''foo''), (''target'', ''ref/pkg/foo.html'')] []
     \<in> set (nodes example_bad_target)"
  by (simp add: example_bad_target_def)

lemma bad_targets:
  "\<not> well_shaped ''ref/pkg/foo.html''" "\<not> well_shaped ''foo.html''" "\<not> well_shaped ''ref/foo''"
  by (simp_all add: well_shaped_iff startswith_def endswith_def)

theorem malformed_target_is_fatal_witness:
  "Element REF_TAG [(''name'', ''foo''), (''target'', ''ref/pkg/foo.html'')] []
     \<in> set (nodes example_bad_target)
   \<and> \<not> well_shaped ''ref/pkg/foo.html''
   \<and> has_dot_in_target_basename ''ref/pkg/foo.html'' = Inl AssertionError
   \<and> deep_search_for_functions example_bad_target = Inl AssertionError
   \<and> main_from_tree example_bad_target = ([], 1)"
  using malformed_target_is_fatal[of "''ref/pkg/foo.html''"
      "Element REF_TAG [(''name'', ''foo''), (''target'', ''ref/pkg/foo.html'')] []" example_bad_target]
    example_bad_target_node bad_targets(1)
  by simp

lemma nodes_retarget: "nodes (retarget f t) = map (retarget f) (nodes t)"
proof (induction t)
  case (Element tg at ch)
  have "concat (map nodes (map (retarget f) ch)) = map (retarget f) (concat (map nodes ch))"
    using Element.IH by (induction ch) simp_all
  then show ?case by simp
qed

lemma map_of_retarget_name:
  "map_of (map (\<lambda>(k, v). if k = ''target'' then (k, f v) else (k, v)) at) ''name'' = map_of at ''name''"
  by (induction at) auto

lemma map_of_retarget_target:
  "map_of (map (\<lambda>(k, v). if k = ''target'' then (k, f v) else (k, v)) at) ''target''
     = map_option f (map_of at ''target'')"
  by (induction at) auto

lemma own_names_retarget: "own_names False (retarget f e) = own_names False e"
  by (cases e)
    (simp add: own_names_def is_ref_def resolved_name_def map_of_retarget_name
      map_of_retarget_target split: option.splits)

lemma deep_search_retarget: "deep_search_flag False (retarget f t) = deep_search_flag False t"
  by (simp add: deep_search_flag_nodes nodes_retarget own_names_retarget comp_def)

lemma resolved_name_False:
  "resolved_name False e =
     (case map_of (attrib e) ''target'' of None \<Rightarrow> None | Some _ \<Rightarrow> map_of (attrib e) ''name'')"
  by (simp add: resolved_name_def split: option.splits)

text \<open>
  Claim C10. With the flag unset the walker does not depend on the values of the
  \<open>target\<close> attributes: replacing them by anything leaves the result unchanged. The walk
  then fails exactly when some reference entry lacks a \<open>name\<close> or a \<open>target\<close>, and
  otherwise returns the \<open>name\<close> attributes of the reference entries in document order. So
  a target that has not the fixed shape is accepted, where the flag as set rejects it.
\<close>

theorem short_names_ignore_target:
  "deep_search_flag False (retarget f t) = deep_search_flag False t
   \<and> deep_search_flag False t = resolved_names False t
   \<and> (deep_search_flag False t = Inl AssertionError \<longleftrightarrow>
        (\<exists>e \<in> set (ref_entries t).
           map_of (attrib e) ''name'' = None \<or> map_of (attrib e) ''target'' = None))
   \<and> (\<forall>functions. deep_search_flag False t = Inr functions \<longrightarrow>
         map Some functions = map (\<lambda>e. map_of (attrib e) ''name'') (ref_entries t))"
proof -
  have a: "deep_search_flag False t = resolved_names False t"
    by (rule deep_search_flag_resolved)
  have "resolved_name False e = None \<longleftrightarrow>
          map_of (attrib e) ''name'' = None \<or> map_of (attrib e) ''target'' = None" for e
    by (auto simp: resolved_name_False split: option.splits)
  then have b: "deep_search_flag False t = Inl AssertionError \<longleftrightarrow>
        (\<exists>e \<in> set (ref_entries t).
           map_of (attrib e) ''name'' = None \<or> map_of (attrib e) ''target'' = None)"
    by (simp add: a resolved_names_fails_iff)
  have c: "map Some fs = map (\<lambda>e. map_of (attrib e) ''name'') (ref_entries t)"
    if "deep_search_flag False t = Inr fs" for fs
  proof -
    from that have t: "those (map (resolved_name False) (ref_entries t)) = Some fs"
      by (simp add: a resolved_names_def split: option.splits)
    then have m: "map Some fs = map (resolved_name False) (ref_entries t)"
      by (rule those_map_Some)
    have "resolved_name False e = map_of (attrib e) ''name''" if "e \<in> set (ref_entries t)" for e
    proof -
      from m that have "resolved_name False e \<noteq> None"
        by (metis (no_types, lifting) imageE image_eqI list.set_map option.distinct(1))
      then show ?thesis by (simp add: resolved_name_False split: option.splits)
    qed
    with m show ?thesis by simp
  qed
  from deep_search_retarget[of f t] a b c show ?thesis by blast
qed

lemma example_bad_target_short: "deep_search_flag False example_bad_target = Inr [''foo'']"
  by (simp add: example_bad_target_def REF_TAG_neq)

theorem short_names_ignore_target_witness:
  "deep_search_flag False example_bad_target = Inr [''foo'']
   \<and> map (\<lambda>e. map_of (attrib e) ''name'') (ref_entries example_bad_target) = [Some ''foo'']
   \<and> deep_search_flag False (retarget (\<lambda>_. ''ref/foo.html'') example_bad_target) = Inr [''foo'']
   \<and> deep_search_flag True example_bad_target = Inl AssertionError
   \<and> deep_search_flag True (retarget (\<lambda>_. ''ref/foo.html'') example_bad_target) = Inr [''foo'']"
proof -
  have "deep_search_flag True example_bad_target = Inl AssertionError"
    using ref_entry_fails[OF example_bad_target_node _ resolved_name_bad_target[OF _ bad_targets(1)]]
    by simp
  moreover have "deep_search_flag True (retarget (\<lambda>_. ''ref/foo.html'') example_bad_target) = Inr [''foo'']"
    by (simp add: example_bad_target_def has_dot_foo REF_TAG_neq)
  ultimately show ?thesis
    using short_names_ignore_target[of "\<lambda>_. ''ref/foo.html''" example_bad_target]
      example_bad_target_short
    by simp
qed

end
